theory Spec2Isabelle
  imports Complex_Main
begin

section \<open>JavaScript function calls\<close>

text \<open>
  A call of a synchronous JavaScript function may change the state of the world (a
  spy's call count, a log, a variable captured by a closure) and then either returns a
  value or throws. The state is passed explicitly: a call is a function from the state
  before it to its result and the state after it, \<open>Inl x\<close> for a thrown \<open>x\<close> and
  \<open>Inr a\<close> for a returned \<open>a\<close>.
\<close>

type_synonym ('s, 'x, 'a) js = "'s \<Rightarrow> ('x + 'a) \<times> 's"

definition js_return :: "'a \<Rightarrow> ('s, 'x, 'a) js" where
  "js_return a = (\<lambda>s. (Inr a, s))"

definition js_throw :: "'x \<Rightarrow> ('s, 'x, 'a) js" where
  "js_throw x = (\<lambda>s. (Inl x, s))"

text \<open>Evaluating \<open>m\<close> and then, unless it threw, \<open>f\<close> on its value.\<close>

definition js_bind :: "('s, 'x, 'a) js \<Rightarrow> ('a \<Rightarrow> ('s, 'x, 'b) js) \<Rightarrow> ('s, 'x, 'b) js" where
  "js_bind m f = (\<lambda>s. case m s of (Inl x, s') \<Rightarrow> (Inl x, s') | (Inr a, s') \<Rightarrow> f a s')"

section \<open>Result.ts\<close>

text \<open>
  The functions that \<open>Result\<close> exports as \<open>map\<close>, \<open>bind\<close>, \<open>map2\<close> and \<open>map3\<close> are
  \<open>Result_map\<close>, \<open>Result_bind\<close>, \<open>Result_map2\<close> and \<open>Result_map3\<close> here.
\<close>

text \<open>\<open>type Result<A, E> = Ok<A> | Err<E>\<close>, a union tagged by \<open>_tag\<close>.\<close>

datatype ('a, 'e) result = Ok (ok: 'a) | Err (err: 'e)

text \<open>
  A case of a \<open>ResultMatcher\<close> has the type \<open>R | ((t: T) => R)\<close>: a raw value or a
  handler. \<open>isRawValue\<close> tells them apart at run time by \<open>typeof caseFn !== "function"\<close>.
\<close>

datatype ('s, 'x, 't, 'r) caseFn = Raw (raw: 'r) | Fn (call: "'t \<Rightarrow> ('s, 'x, 'r) js")

record ('s, 'x, 'a, 'e, 'r) ResultMatcher =
  on_ok :: "('s, 'x, 'a, 'r) caseFn"
  on_err :: "('s, 'x, 'e, 'r) caseFn"

definition isRawValue :: "('s, 'x, 't, 'r) caseFn \<Rightarrow> bool" where
  "isRawValue caseFn = (case caseFn of Raw _ \<Rightarrow> True | Fn _ \<Rightarrow> False)"

definition getMatcherResult :: "('s, 'x, 't, 'r) caseFn \<Rightarrow> 't \<Rightarrow> ('s, 'x, 'r) js" where
  "getMatcherResult match arg = (if isRawValue match then js_return (raw match) else call match arg)"

text \<open>
  \<open>match\<close>: the \<open>switch\<close> on \<open>result._tag\<close>. Its \<open>default\<close> branch
  (\<open>assertExhaustive\<close>) cannot be reached by a value of the two-variant type.
\<close>

definition match :: "('s, 'x, 'a, 'e, 'r) ResultMatcher \<Rightarrow> ('a, 'e) result \<Rightarrow> ('s, 'x, 'r) js" where
  "match matcher result =
     (case result of
        Ok a \<Rightarrow> getMatcherResult (on_ok matcher) a
      | Err e \<Rightarrow> getMatcherResult (on_err matcher) e)"

definition Result_map :: "('a \<Rightarrow> ('s, 'x, 'b) js) \<Rightarrow> ('a, 'e) result \<Rightarrow> ('s, 'x, ('b, 'e) result) js" where
  "Result_map f =
     match \<lparr>on_ok = Fn (\<lambda>a. js_bind (f a) (\<lambda>b. js_return (Ok b))),
            on_err = Fn (\<lambda>e. js_return (Err e))\<rparr>"

definition mapErr :: "('ea \<Rightarrow> ('s, 'x, 'eb) js) \<Rightarrow> ('a, 'ea) result \<Rightarrow> ('s, 'x, ('a, 'eb) result) js" where
  "mapErr f =
     match \<lparr>on_ok = Fn (\<lambda>a. js_return (Ok a)),
            on_err = Fn (\<lambda>e. js_bind (f e) (\<lambda>e'. js_return (Err e')))\<rparr>"

definition Result_bind :: "('a \<Rightarrow> ('s, 'x, ('b, 'e) result) js) \<Rightarrow> ('a, 'e) result \<Rightarrow> ('s, 'x, ('b, 'e) result) js" where
  "Result_bind f =
     match \<lparr>on_ok = Fn f,
            on_err = Fn (\<lambda>e. js_return (Err e))\<rparr>"

definition isOk :: "('a, 'e) result \<Rightarrow> bool" where
  "isOk result = (case result of Ok _ \<Rightarrow> True | Err _ \<Rightarrow> False)"

definition isErr :: "('a, 'e) result \<Rightarrow> bool" where
  "isErr result = (case result of Ok _ \<Rightarrow> False | Err _ \<Rightarrow> True)"

text \<open>
  The default handed to \<open>defaultValue\<close> is any value of type \<open>A\<close>, and a value of
  \<open>A\<close> may itself be a function. \<open>jsvalue\<close> is such a type of values: \<open>Plain p\<close> is
  a value for which \<open>typeof\<close> is not \<open>"function"\<close>, \<open>Func f\<close> one for which it is,
  called with one argument.
\<close>

datatype ('s, 'x, 't, 'p) jsvalue =
  Plain 'p
| Func "'t \<Rightarrow> 's \<Rightarrow> ('x + ('s, 'x, 't, 'p) jsvalue) \<times> 's"

text \<open>
  The value \<open>a\<close> stored in the \<open>err\<close> field of a matcher, as \<open>isRawValue\<close> and
  \<open>getMatcherResult\<close> see it at run time.
\<close>

definition asCase :: "('s, 'x, 't, 'p) jsvalue \<Rightarrow> ('s, 'x, 't, ('s, 'x, 't, 'p) jsvalue) caseFn" where
  "asCase a = (case a of Plain p \<Rightarrow> Raw (Plain p) | Func f \<Rightarrow> Fn f)"

definition defaultValue ::
  "('s, 'x, 'e, 'p) jsvalue \<Rightarrow> (('s, 'x, 'e, 'p) jsvalue, 'e) result
     \<Rightarrow> ('s, 'x, ('s, 'x, 'e, 'p) jsvalue) js" where
  "defaultValue a =
     match \<lparr>on_ok = Fn (\<lambda>a. js_return a),
            on_err = asCase a\<rparr>"

definition Result_map2 ::
  "('a \<Rightarrow> 'b \<Rightarrow> ('s, 'x, 'c) js) \<Rightarrow> ('a, 'e) result \<times> ('b, 'e) result
     \<Rightarrow> ('s, 'x, ('c, 'e) result) js" where
  "Result_map2 f results =
     (if isOk (fst results) \<and> isOk (snd results) then
        js_bind (f (ok (fst results)) (ok (snd results))) (\<lambda>c. js_return (Ok c))
      else if isErr (fst results) then
        js_return (Err (err (fst results)))
      else
        js_return (Err (err (snd results))))"

definition Result_map3 ::
  "('a \<Rightarrow> 'b \<Rightarrow> 'c \<Rightarrow> ('s, 'x, 'd) js)
     \<Rightarrow> ('a, 'e) result \<times> ('b, 'e) result \<times> ('c, 'e) result
     \<Rightarrow> ('s, 'x, ('d, 'e) result) js" where
  "Result_map3 f results =
     (case results of (r0, r1, r2) \<Rightarrow>
        if isOk r0 \<and> isOk r1 \<and> isOk r2 then
          js_bind (f (ok r0) (ok r1) (ok r2)) (\<lambda>d. js_return (Ok d))
        else if isErr r0 then
          js_return (Err (err r0))
        else if isErr r1 then
          js_return (Err (err r1))
        else
          js_return (Err (err r2)))"








section \<open>The host's promises\<close>

text \<open>
  A \<open>Promise<A>\<close> is work already under way. It is kept as what remains of that work:
  \<open>Resolved a\<close> and \<open>Rejected x\<close> are settled promises, \<open>Never\<close> is one that stays pending
  for ever, \<open>Job u k\<close> is one whose next step is a job waiting in the microtask queue
  and \<open>Timer d u k\<close> one whose next step is the task of a timer that fires \<open>d\<close>
  milliseconds from now. The step changes the state by \<open>u\<close> and leaves the promise
  \<open>k s\<close>, for \<open>s\<close> the state before the step; it runs to completion. The work of a
  promise is finite on every path: one that neither settles nor stops taking steps is not
  a value of this type. The clock is not part of the state, so no step reads it.
\<close>

datatype (dead 's, rejects_with: 'x, resolves_with: 'a) promise =
    Resolved 'a
  | Rejected 'x
  | Never
  | Job "'s \<Rightarrow> 's" "'s \<Rightarrow> ('s, 'x, 'a) promise"
  | Timer nat "'s \<Rightarrow> 's" "'s \<Rightarrow> ('s, 'x, 'a) promise"

text \<open>
  \<open>interface Async<A> { (): Promise<A> }\<close>: calling the producer runs its synchronous
  part on the state and returns the promise. A producer returns a promise, as its type
  says; one that throws before it has a promise to return is not covered.
\<close>

type_synonym ('s, 'x, 'a) async = "'s \<Rightarrow> ('s, 'x, 'a) promise \<times> 's"

text \<open>
  \<open>promise.then(f)\<close>, for a callback \<open>f\<close> that is called in a later job with the
  value of the promise; \<open>f a\<close> is what the call does to the state and what the new promise
  is after it. A rejection passes \<open>f\<close> by, in a later job as well. Where the callback
  returns a promise, the new promise is that promise from then on: the jobs by which the
  host hands the result of a returned promise on are not counted.
\<close>

primrec Promise_then ::
  "('s, 'x, 'a) promise \<Rightarrow> ('a \<Rightarrow> ('s, 'x, 'b) async) \<Rightarrow> ('s, 'x, 'b) promise" where
  "Promise_then (Resolved a) f = Job (\<lambda>s. snd (f a s)) (\<lambda>s. fst (f a s))"
| "Promise_then (Rejected x) f = Job (\<lambda>s. s) (\<lambda>s. Rejected x)"
| "Promise_then Never f = Never"
| "Promise_then (Job u k) f = Job u (\<lambda>s. Promise_then (k s) f)"
| "Promise_then (Timer d u k) f = Timer d u (\<lambda>s. Promise_then (k s) f)"

text \<open>
  The callback of \<open>then\<close> that returns a value or throws: the new promise is resolved
  with the value or rejected with what was thrown.
\<close>

definition settle :: "('s, 'x, 'a) js \<Rightarrow> ('s, 'x, 'a) async" where
  "settle c = (\<lambda>s. case c s of (Inr a, s') \<Rightarrow> (Resolved a, s') | (Inl x, s') \<Rightarrow> (Rejected x, s'))"

text \<open>
  \<open>await promise\<close> in the body of an \<open>async\<close> function, followed by the rest of the
  body: the rest runs in a later job with the value of the promise, and a rejection ends
  the body (none of the functions here has a \<open>try\<close> around an \<open>await\<close>). The rest
  returns the promise of what remains, \<open>Resolved a\<close> when it is \<open>return a\<close>.
\<close>

definition await :: "('s, 'x, 'a) promise \<Rightarrow> ('a \<Rightarrow> ('s, 'x, 'b) async) \<Rightarrow> ('s, 'x, 'b) promise" where
  "await p rest = Promise_then p rest"

text \<open>
  A \<open>number\<close>: a finite double, which is a real, or one of the three values that are
  not. \<open>le_zero n\<close> is \<open>n <= 0\<close> and \<open>Math_floor\<close> is \<open>Math.floor\<close>; both are exact on
  the finite doubles.
\<close>

datatype number = Finite real | NaN | PosInfinity | NegInfinity

definition le_zero :: "number \<Rightarrow> bool" where
  "le_zero n =
     (case n of Finite r \<Rightarrow> r \<le> 0 | NaN \<Rightarrow> False | PosInfinity \<Rightarrow> False | NegInfinity \<Rightarrow> True)"

definition Math_floor :: "number \<Rightarrow> number" where
  "Math_floor n =
     (case n of
        Finite r \<Rightarrow> Finite (of_int \<lfloor>r\<rfloor>)
      | NaN \<Rightarrow> NaN
      | PosInfinity \<Rightarrow> PosInfinity
      | NegInfinity \<Rightarrow> NegInfinity)"

text \<open>
  The milliseconds after which the host's \<open>setTimeout\<close> fires for a given delay: a delay
  above \<open>2^31 - 1\<close>, \<open>NaN\<close> and the infinities are taken as 1; any other delay is cut to
  an integer and waited for exactly, not at all when it is not positive. The clock is the
  nominal one: a timer set for \<open>d\<close> milliseconds is due \<open>d\<close> milliseconds later.
\<close>

definition setTimeout_delay :: "number \<Rightarrow> nat" where
  "setTimeout_delay delay =
     (case delay of
        Finite r \<Rightarrow> if 2147483647 < r then 1 else nat \<lfloor>r\<rfloor>
      | NaN \<Rightarrow> 1
      | PosInfinity \<Rightarrow> 1
      | NegInfinity \<Rightarrow> 1)"

text \<open>\<open>new Promise(resolve => setTimeout(resolve, delay))\<close>.\<close>

definition setTimeout_promise :: "number \<Rightarrow> ('s, 'x, unit) promise" where
  "setTimeout_promise delay = Timer (setTimeout_delay delay) (\<lambda>s. s) (\<lambda>s. Resolved ())"

text \<open>
  \<open>array.map(f)\<close> for a callback with effects: the calls are made in the order of the
  array, each on the state the one before left.
\<close>

fun Array_map :: "('a \<Rightarrow> 's \<Rightarrow> 'b \<times> 's) \<Rightarrow> 'a list \<Rightarrow> 's \<Rightarrow> 'b list \<times> 's" where
  "Array_map f [] s = ([], s)"
| "Array_map f (x # xs) s =
     (case f x s of (y, s') \<Rightarrow> (case Array_map f xs s' of (ys, s'') \<Rightarrow> (y # ys, s'')))"

subsection \<open>The event loop over several promises\<close>

text \<open>
  Promises that are under way together take their steps one at a time, in an order that
  is the host's. A slot \<open>Active t q p\<close> holds a promise \<open>p\<close> with the time \<open>t\<close> and the
  number \<open>q\<close> in the order of all steps at which it came to be what it is: \<open>q\<close> is the
  place of its job in the queue, \<open>t + d\<close> the time at which its timer is due.
  \<open>Collected\<close> is the slot of a promise whose value \<open>Promise.all\<close> has stored.
\<close>

datatype ('s, 'x, 'a) slot = Active nat nat "('s, 'x, 'a) promise" | Collected

fun job_seq :: "('s, 'x, 'a) slot \<Rightarrow> nat option" where
  "job_seq (Active t q (Job u k)) = Some q"
| "job_seq (Active t q (Timer d u k)) = None"
| "job_seq (Active t q (Resolved a)) = None"
| "job_seq (Active t q (Rejected x)) = None"
| "job_seq (Active t q Never) = None"
| "job_seq Collected = None"

fun timer_due :: "('s, 'x, 'a) slot \<Rightarrow> (nat \<times> nat) option" where
  "timer_due (Active t q (Timer d u k)) = Some (t + d, q)"
| "timer_due (Active t q (Job u k)) = None"
| "timer_due (Active t q (Resolved a)) = None"
| "timer_due (Active t q (Rejected x)) = None"
| "timer_due (Active t q Never) = None"
| "timer_due Collected = None"

text \<open>
  The pair of an index and a key with the least key, the leftmost one among equals.
\<close>

fun least :: "('k \<Rightarrow> 'k \<Rightarrow> bool) \<Rightarrow> (nat \<times> 'k) list \<Rightarrow> (nat \<times> 'k) option" where
  "least le [] = None"
| "least le ((i, m) # rest) =
     (case least le rest of
        None \<Rightarrow> Some (i, m)
      | Some (j, n) \<Rightarrow> if le m n then Some (i, m) else Some (j, n))"

definition keyed :: "('b \<Rightarrow> 'k option) \<Rightarrow> 'b list \<Rightarrow> (nat \<times> 'k) list" where
  "keyed key xs = List.map_filter (\<lambda>i. map_option (Pair i) (key (xs ! i))) [0..<length xs]"

definition earlier :: "nat \<times> nat \<Rightarrow> nat \<times> nat \<Rightarrow> bool" where
  "earlier a b = (fst a < fst b \<or> (fst a = fst b \<and> snd a \<le> snd b))"

text \<open>
  What the host's choice of the next step may depend on: for every slot, the place of its
  job in the queue, or the time at which its timer is due and the number of the step that
  set it, or neither when the slot has no step to take.
\<close>

type_synonym pending = "nat option \<times> (nat \<times> nat) option"

definition pending_step :: "('s, 'x, 'a) slot \<Rightarrow> pending" where
  "pending_step sl = (job_seq sl, timer_due sl)"

text \<open>
  An order of steps names the index of the slot whose step is the next one. The order of
  the host: a job before any timer, the jobs first in, first out, and the timers in the
  order of the times at which they are due, those due at the same time in the order in
  which they were set.
\<close>

type_synonym order = "pending list \<Rightarrow> nat option"

definition host_order :: order where
  "host_order steps =
     (case least (\<le>) (keyed fst steps) of
        Some (i, q) \<Rightarrow> Some i
      | None \<Rightarrow> map_option fst (least earlier (keyed snd steps)))"

text \<open>
  An order that is not the host's, for comparison: the rightmost slot that has a step to
  take.
\<close>

definition rightmost_order :: order where
  "rightmost_order steps =
     (case filter (\<lambda>i. steps ! i \<noteq> (None, None)) (rev [0..<length steps]) of
        [] \<Rightarrow> None
      | i # rest \<Rightarrow> Some i)"

text \<open>
  The index of the slot whose step is the next one in a given order, if there is any.
  Where the order names no slot, or one that has no step to take, no step is taken.
\<close>

definition next_turn :: "order \<Rightarrow> ('s, 'x, 'a) slot list \<Rightarrow> nat option" where
  "next_turn order slots =
     (case order (map pending_step slots) of
        Some i \<Rightarrow>
          if i < length slots \<and> pending_step (slots ! i) \<noteq> (None, None) then Some i else None
      | None \<Rightarrow> None)"

text \<open>
  What a step makes of a slot. The relation is well-founded, since the work of a promise
  is finite; this is why the loops below end.
\<close>

definition slot_less :: "(('s, 'x, 'a) slot \<times> ('s, 'x, 'a) slot) set" where
  "slot_less =
     {(sl', sl). \<exists>t q a. sl = Active t q (Resolved a) \<and> sl' = Collected} \<union>
     {(sl', sl). \<exists>t q u k t' q' s. sl = Active t q (Job u k) \<and> sl' = Active t' q' (k s)} \<union>
     {(sl', sl). \<exists>t q d u k t' q' s. sl = Active t q (Timer d u k) \<and> sl' = Active t' q' (k s)}"

lemma wf_slot_less: "wf (slot_less :: (('s, 'x, 'a) slot \<times> ('s, 'x, 'a) slot) set)"
proof (rule wfUNIVI)
  fix P :: "('s, 'x, 'a) slot \<Rightarrow> bool" and sl
  assume step: "\<forall>x. (\<forall>y. (y, x) \<in> slot_less \<longrightarrow> P y) \<longrightarrow> P x"
  have stepI: "P x" if "\<And>y. (y, x) \<in> slot_less \<Longrightarrow> P y" for x
    using step that by blast
  have collected: "P Collected"
    by (rule stepI) (simp add: slot_less_def)
  have "P (Active t q p)" for t q p
  proof (induction p arbitrary: t q)
    case (Resolved a)
    show ?case
      by (rule stepI) (auto simp: slot_less_def collected)
  next
    case (Rejected x)
    show ?case
      by (rule stepI) (simp add: slot_less_def)
  next
    case Never
    show ?case
      by (rule stepI) (simp add: slot_less_def)
  next
    case (Job u k)
    show ?case
    proof (rule stepI)
      fix y
      assume "(y, Active t q (Job u k)) \<in> slot_less"
      then obtain t' q' s where "y = Active t' q' (k s)"
        by (auto simp: slot_less_def)
      then show "P y"
        using Job by simp
    qed
  next
    case (Timer d u k)
    show ?case
    proof (rule stepI)
      fix y
      assume "(y, Active t q (Timer d u k)) \<in> slot_less"
      then obtain t' q' s where "y = Active t' q' (k s)"
        by (auto simp: slot_less_def)
      then show "P y"
        using Timer by simp
    qed
  qed
  then show "P sl"
    using collected by (cases sl) simp_all
qed

lemma lex_list_update:
  assumes "i < length xs" and "(y, xs ! i) \<in> r"
  shows "(xs[i := y], xs) \<in> lex r"
proof -
  have upd: "xs[i := y] = take i xs @ y # drop (Suc i) xs"
    using assms(1) by (rule upd_conv_take_nth_drop)
  have same: "take i xs @ xs ! i # drop (Suc i) xs = xs"
    using assms(1) by (rule id_take_nth_drop [symmetric])
  have "(y # drop (Suc i) xs, xs ! i # drop (Suc i) xs) \<in> lex r"
    using assms(2) by simp
  then have "(take i xs @ y # drop (Suc i) xs, take i xs @ xs ! i # drop (Suc i) xs) \<in> lex r"
    by (rule lex_append_leftI)
  then show ?thesis
    by (simp only: upd same)
qed

lemma least_mem: "least le xs = Some y \<Longrightarrow> y \<in> set xs"
  by (induction le xs arbitrary: y rule: least.induct) (auto split: option.splits if_splits)

lemma least_None: "least le xs = None \<Longrightarrow> xs = []"
  by (induction le xs rule: least.induct) (auto split: option.splits if_splits)

lemma keyed_mem: "(i, m) \<in> set (keyed key xs) \<Longrightarrow> i < length xs \<and> key (xs ! i) = Some m"
  by (auto simp: keyed_def map_filter_def)

lemma keyed_Nil: "keyed key xs = [] \<Longrightarrow> i < length xs \<Longrightarrow> key (xs ! i) = None"
proof -
  assume a: "keyed key xs = []" and i: "i < length xs"
  then have "\<forall>j \<in> set [0..<length xs]. map_option (Pair j) (key (xs ! j)) = None"
    by (simp add: keyed_def map_filter_def filter_empty_conv)
  then show ?thesis
    using i by simp
qed

lemma next_turn_Some:
  assumes "next_turn order slots = Some i"
  shows "i < length slots \<and> (job_seq (slots ! i) \<noteq> None \<or> timer_due (slots ! i) \<noteq> None)"
  using assms by (auto simp: next_turn_def pending_step_def split: option.splits if_splits)

lemma turn_cases:
  assumes "job_seq sl \<noteq> None \<or> timer_due sl \<noteq> None"
  shows "(\<exists>t q u k. sl = Active t q (Job u k)) \<or> (\<exists>t q d u k. sl = Active t q (Timer d u k))"
proof (cases sl)
  case (Active t q p)
  then show ?thesis
    using assms by (cases p) simp_all
next
  case Collected
  then show ?thesis
    using assms by simp
qed

text \<open>
  The promises of a list taking their steps together in a given order, until no step is
  taken: the slots at the end, the time and the state. \<open>now\<close> is the time since the
  promises were put together, \<open>seq\<close> the number of the next step to be queued, and \<open>t\<close>
  the time of the clock. A timer fires when it is due, or later if the order has it wait.
\<close>

function take_turns ::
  "order \<Rightarrow> nat \<Rightarrow> nat \<Rightarrow> ('s, 'x, 'a) slot list \<Rightarrow> nat \<Rightarrow> 's
     \<Rightarrow> ('s, 'x, 'a) slot list \<times> nat \<times> 's" where
  "take_turns order now seq slots t s =
     (case next_turn order slots of
        None \<Rightarrow> (slots, t, s)
      | Some i \<Rightarrow>
          (case slots ! i of
             Active t0 q (Job u k) \<Rightarrow>
               take_turns order now (seq + 1) (slots[i := Active now seq (k s)]) t (u s)
           | Active t0 q (Timer d u k) \<Rightarrow>
               take_turns order (max now (t0 + d)) (seq + 1)
                 (slots[i := Active (max now (t0 + d)) seq (k s)])
                 (t + (max now (t0 + d) - now)) (u s)
           | _ \<Rightarrow> (slots, t, s)))"
  by pat_completeness auto
termination
proof (relation "inv_image (lex slot_less) (\<lambda>(order, now, seq, slots, t, s). slots)", goal_cases)
  case 1
  show ?case by (intro wf_inv_image wf_lex wf_slot_less)
next
  case (2 order now seq slots t s i t0 q p u k)
  then have "i < length slots"
    by (simp add: next_turn_Some)
  moreover from 2 have "(Active now seq (k s), slots ! i) \<in> slot_less"
    by (auto simp add: slot_less_def)
  ultimately show ?case
    by (simp add: lex_list_update)
next
  case (3 order now seq slots t s i t0 q p d u k)
  then have "i < length slots"
    by (simp add: next_turn_Some)
  moreover from 3 have "(Active (max now (t0 + d)) seq (k s), slots ! i) \<in> slot_less"
    by (auto simp add: slot_less_def)
  ultimately show ?case
    by (simp add: lex_list_update)
qed

declare take_turns.simps [simp del]

subsection \<open>Promise.all\<close>

text \<open>
  \<open>Promise.all\<close>, as the language defines it. Every promise of the list has an index, a
  list \<open>values\<close> stores the value of a promise at its index when that promise is
  resolved, and \<open>remaining\<close> counts the promises not yet resolved; at 0 the result is
  resolved with \<open>values\<close>. The first rejection rejects the result. The settlements are
  handled in the order in which they happen, and between them the promises take their
  steps in the order \<open>order\<close>. When \<open>Promise.all\<close> is called the promises have just
  been started one after the other, so the step of each is queued in the order of the
  list. Of what the other promises do after a rejection, the result keeps nothing, and
  the jobs in which \<open>Promise.all\<close> itself stores a value or passes a rejection on are not
  counted.
\<close>

fun settled :: "('s, 'x, 'a) slot \<Rightarrow> bool" where
  "settled (Active t q (Resolved a)) = True"
| "settled (Active t q (Rejected x)) = True"
| "settled (Active t q Never) = False"
| "settled (Active t q (Job u k)) = False"
| "settled (Active t q (Timer d u k)) = False"
| "settled Collected = False"

text \<open>
  The leftmost slot with a settled promise whose settlement is not yet handled.
\<close>

definition first_settled :: "('s, 'x, 'a) slot list \<Rightarrow> nat option" where
  "first_settled slots = List.find (\<lambda>i. settled (slots ! i)) [0..<length slots]"

lemma first_settled_Some:
  "first_settled slots = Some i \<Longrightarrow> i < length slots \<and> settled (slots ! i)"
  by (auto simp: first_settled_def find_Some_iff)

function Promise_all_loop ::
  "order \<Rightarrow> nat \<Rightarrow> nat \<Rightarrow> 'a option list \<Rightarrow> nat \<Rightarrow> ('s, 'x, 'a) slot list
     \<Rightarrow> ('s, 'x, 'a list) promise" where
  "Promise_all_loop order now seq values remaining slots =
     (if remaining = 0 then Resolved (map the values)
      else case first_settled slots of
        Some i \<Rightarrow>
          (case slots ! i of
             Active t q (Resolved a) \<Rightarrow>
               Promise_all_loop order now seq (values[i := Some a]) (remaining - 1)
                 (slots[i := Collected])
           | Active t q (Rejected x) \<Rightarrow> Rejected x
           | _ \<Rightarrow> Never)
      | None \<Rightarrow>
          (case next_turn order slots of
             Some i \<Rightarrow>
               (case slots ! i of
                  Active t q (Job u k) \<Rightarrow>
                    Job u
                      (\<lambda>s. Promise_all_loop order now (seq + 1) values remaining
                             (slots[i := Active now seq (k s)]))
                | Active t q (Timer d u k) \<Rightarrow>
                    Timer (max now (t + d) - now) u
                      (\<lambda>s. Promise_all_loop order (max now (t + d)) (seq + 1) values remaining
                             (slots[i := Active (max now (t + d)) seq (k s)]))
                | _ \<Rightarrow> Never)
           | None \<Rightarrow> Never))"
  by pat_completeness auto
termination
proof (relation "inv_image (lex slot_less) (\<lambda>(order, now, seq, values, remaining, slots). slots)",
    goal_cases)
  case 1
  show ?case by (intro wf_inv_image wf_lex wf_slot_less)
next
  case (2 order now seq "values" remaining slots i t q p u k s)
  then have "i < length slots"
    by (simp add: next_turn_Some)
  moreover from 2 have "(Active now seq (k s), slots ! i) \<in> slot_less"
    by (auto simp add: slot_less_def)
  ultimately show ?case
    by (simp add: lex_list_update)
next
  case (3 order now seq "values" remaining slots i t q p d u k s)
  then have "i < length slots"
    by (simp add: next_turn_Some)
  moreover from 3 have "(Active (max now (t + d)) seq (k s), slots ! i) \<in> slot_less"
    by (auto simp add: slot_less_def)
  ultimately show ?case
    by (simp add: lex_list_update)
next
  case (4 order now seq "values" remaining slots i t q p a)
  then have "i < length slots"
    by (simp add: first_settled_Some)
  moreover from 4 have "(Collected, slots ! i) \<in> slot_less"
    by (simp add: slot_less_def)
  ultimately show ?case
    by (simp add: lex_list_update)
qed

declare Promise_all_loop.simps [simp del]

text \<open>The slots of a list of promises that have just been started in its order.\<close>

definition initial_slots :: "('s, 'x, 'a) promise list \<Rightarrow> ('s, 'x, 'a) slot list" where
  "initial_slots promises = map (\<lambda>i. Active 0 i (promises ! i)) [0..<length promises]"

definition Promise_all :: "order \<Rightarrow> ('s, 'x, 'a) promise list \<Rightarrow> ('s, 'x, 'a list) promise" where
  "Promise_all order promises =
     Promise_all_loop order 0 (length promises) (replicate (length promises) None)
       (length promises) (initial_slots promises)"

section \<open>Async.ts\<close>

text \<open>
  The functions that \<open>Async\<close> exports as \<open>of\<close>, \<open>map\<close> and \<open>bind\<close> are \<open>Async_of\<close>,
  \<open>Async_map\<close> and \<open>Async_bind\<close> here. The name of a function of the source stands
  for the producer \<open>() => ...\<close> that it returns when it has all its arguments: the
  innermost arrow is the abstraction over the state. The callbacks \<open>f\<close> are JavaScript
  functions, which may change the state and may throw.
\<close>

definition Async_of :: "'a \<Rightarrow> ('s, 'x, 'a) async" where
  "Async_of a = (\<lambda>s. (Resolved a, s))"

definition Async_map :: "('a \<Rightarrow> ('s, 'x, 'b) js) \<Rightarrow> ('s, 'x, 'a) async \<Rightarrow> ('s, 'x, 'b) async" where
  "Async_map f async = (\<lambda>s. case async s of (p, s') \<Rightarrow> (Promise_then p (\<lambda>a. settle (f a)), s'))"

definition Async_bind :: "('a \<Rightarrow> ('s, 'x, ('s, 'x, 'b) async) js) \<Rightarrow> ('s, 'x, 'a) async \<Rightarrow> ('s, 'x, 'b) async" where
  "Async_bind f async =
     (\<lambda>s. case async s of (p, s') \<Rightarrow>
        (Promise_then p (\<lambda>a s1. case f a s1 of (Inr inner, s2) \<Rightarrow> inner s2 | (Inl x, s2) \<Rightarrow> (Rejected x, s2)), s'))"

definition flatten :: "('s, 'x, ('s, 'x, 'a) async) async \<Rightarrow> ('s, 'x, 'a) async" where
  "flatten async = (\<lambda>s. case async s of (p, s') \<Rightarrow> (Promise_then p (\<lambda>inner. inner), s'))"

definition delay :: "number \<Rightarrow> ('s, 'x, 'a) async \<Rightarrow> ('s, 'x, 'a) async" where
  "delay delayInMilliseconds async =
     (\<lambda>s. let delay = (if le_zero delayInMilliseconds then Finite 0 else Math_floor delayInMilliseconds) in
        (await (setTimeout_promise delay) (\<lambda>_ s1.
           case async s1 of (p, s2) \<Rightarrow> (await p (\<lambda>a s3. (Resolved a, s3)), s2)), s))"

text \<open>
  \<open>sequential\<close>: the \<open>for\<close> loop of the \<open>async\<close> function, from the index \<open>i\<close> and
  the \<open>results\<close> pushed so far.
\<close>

function sequential_loop ::
  "('s, 'x, 'a) async list \<Rightarrow> nat \<Rightarrow> 'a list \<Rightarrow> ('s, 'x, 'a list) async" where
  "sequential_loop asyncs i results s =
     (if i < length asyncs then
        (case (asyncs ! i) s of (p, s') \<Rightarrow>
           (await p (\<lambda>a s''. sequential_loop asyncs (i + 1) (results @ [a]) s''), s'))
      else (Resolved results, s))"
  by pat_completeness auto
termination
  by (relation "measure (\<lambda>(asyncs, i, results, s). length asyncs - i)") auto

declare sequential_loop.simps [simp del]

definition sequential :: "('s, 'x, 'a) async list \<Rightarrow> ('s, 'x, 'a list) async" where
  "sequential asyncs = sequential_loop asyncs 0 []"

definition start :: "('s, 'x, 'a) async \<Rightarrow> 's \<Rightarrow> ('s, 'x, 'a) promise \<times> 's" where
  "start async s = async s"

text \<open>
  \<open>parallel\<close>. The order in which the host lets the started promises take their steps
  is the parameter \<open>order\<close>.
\<close>

definition parallel :: "order \<Rightarrow> ('s, 'x, 'a) async list \<Rightarrow> ('s, 'x, 'a list) async" where
  "parallel order asyncs =
     (\<lambda>s. case Array_map start asyncs s of (promises, s') \<Rightarrow> (Promise_all order promises, s'))"

definition ofPromise :: "('s, 'x, 'a) promise \<Rightarrow> ('s, 'x, 'a) async" where
  "ofPromise promise = (\<lambda>s. (promise, s))"

definition tee :: "('a \<Rightarrow> ('s, 'x, unit) js) \<Rightarrow> ('s, 'x, 'a) async \<Rightarrow> ('s, 'x, 'a) async" where
  "tee f async =
     (\<lambda>s. case async s of (p, s') \<Rightarrow>
        (await p (\<lambda>a s1. case f a s1 of
                            (Inr _, s2) \<Rightarrow> (Resolved a, s2)
                          | (Inl x, s2) \<Rightarrow> (Rejected x, s2)), s'))"

definition never :: "('s, 'x, 'a) async" where
  "never = (\<lambda>s. (Never, s))"

text \<open>
  The calls that build a producer, as JavaScript calls: \<open>of(a)\<close>, and \<open>map(f)\<close>,
  \<open>bind(f)\<close> and \<open>delay(ms)\<close>, whose result is called with the producer to wrap. Each of
  these functions is an arrow whose body is the next arrow, so a call evaluates a
  function expression and returns the closure.
\<close>

definition of_call :: "'a \<Rightarrow> ('s, 'x, ('s, 'x, 'a) async) js" where
  "of_call a = js_return (Async_of a)"

definition map_call ::
  "('a \<Rightarrow> ('s, 'x, 'b) js) \<Rightarrow> ('s, 'x, ('s, 'x, 'a) async \<Rightarrow> ('s, 'x, ('s, 'x, 'b) async) js) js" where
  "map_call f = js_return (\<lambda>async. js_return (Async_map f async))"

definition bind_call ::
  "('a \<Rightarrow> ('s, 'x, ('s, 'x, 'b) async) js)
     \<Rightarrow> ('s, 'x, ('s, 'x, 'a) async \<Rightarrow> ('s, 'x, ('s, 'x, 'b) async) js) js" where
  "bind_call f = js_return (\<lambda>async. js_return (Async_bind f async))"

definition delay_call ::
  "number \<Rightarrow> ('s, 'x, ('s, 'x, 'a) async \<Rightarrow> ('s, 'x, ('s, 'x, 'a) async) js) js" where
  "delay_call delayInMilliseconds = js_return (\<lambda>async. js_return (delay delayInMilliseconds async))"

section \<open>Running a promise\<close>

text \<open>
  What becomes of a promise when the event loop runs it and nothing else: how it ends,
  at what time, and in what state. \<open>run p t s\<close> starts at the time \<open>t\<close> in the state \<open>s\<close>.
  For a promise that stays pending, the time and the state are those after its last step.
\<close>

datatype ('x, 'a) outcome = Fulfilled 'a | Failed 'x | Unsettled

primrec run :: "('s, 'x, 'a) promise \<Rightarrow> nat \<Rightarrow> 's \<Rightarrow> ('x, 'a) outcome \<times> nat \<times> 's" where
  "run (Resolved a) t s = (Fulfilled a, t, s)"
| "run (Rejected x) t s = (Failed x, t, s)"
| "run Never t s = (Unsettled, t, s)"
| "run (Job u k) t s = run (k s) t (u s)"
| "run (Timer d u k) t s = run (k s) (t + d) (u s)"

text \<open>
  Starting a producer at the time \<open>t\<close> in the state \<open>s\<close> and running its promise.
\<close>

definition run_from :: "('s, 'x, 'a) async \<Rightarrow> nat \<Rightarrow> 's \<Rightarrow> ('x, 'a) outcome \<times> nat \<times> 's" where
  "run_from async t s = (case start async s of (p, s') \<Rightarrow> run p t s')"

text \<open>
  What becomes of the promises of a list, just started in its order, when the event loop
  runs them together, in a given order of steps, and nothing else: how each of them ends,
  and the time and the state when no step is taken any more.
\<close>

fun outcome_of :: "('s, 'x, 'a) slot \<Rightarrow> ('x, 'a) outcome" where
  "outcome_of (Active t q (Resolved a)) = Fulfilled a"
| "outcome_of (Active t q (Rejected x)) = Failed x"
| "outcome_of (Active t q Never) = Unsettled"
| "outcome_of (Active t q (Job u k)) = Unsettled"
| "outcome_of (Active t q (Timer d u k)) = Unsettled"
| "outcome_of Collected = Unsettled"

definition concurrently ::
  "order \<Rightarrow> ('s, 'x, 'a) promise list \<Rightarrow> nat \<Rightarrow> 's \<Rightarrow> ('x, 'a) outcome list \<times> nat \<times> 's" where
  "concurrently order promises t s =
     (case take_turns order 0 (length promises) (initial_slots promises) t s of
        (slots, t', s') \<Rightarrow> (map outcome_of slots, t', s'))"

text \<open>The outcome of a run with \<open>r\<close> put before the list of values, when there is one.\<close>

definition with_first :: "'a \<Rightarrow> ('x, 'a list) outcome \<times> nat \<times> 's \<Rightarrow> ('x, 'a list) outcome \<times> nat \<times> 's" where
  "with_first r res =
     (case res of
        (Fulfilled rs, t, s) \<Rightarrow> (Fulfilled (r # rs), t, s)
      | (Failed x, t, s) \<Rightarrow> (Failed x, t, s)
      | (Unsettled, t, s) \<Rightarrow> (Unsettled, t, s))"

text \<open>
  The slots of the loop of \<open>Promise.all\<close> against the slots of the same promises running
  by themselves. They are the same but for the promises whose value has been collected:
  these are resolved in the other list, with the value stored at their index;
  \<open>remaining\<close> counts the slots not collected.
\<close>

definition mirrors ::
  "'a option list \<Rightarrow> nat \<Rightarrow> ('s, 'x, 'a) slot list \<Rightarrow> ('s, 'x, 'a) slot list \<Rightarrow> bool" where
  "mirrors values remaining S R \<longleftrightarrow>
     length S = length R \<and> length values = length S \<and>
     remaining = length (filter (\<lambda>sl. sl \<noteq> Collected) S) \<and>
     (\<forall>i<length S.
        (S ! i = Collected \<and> (\<exists>t q a. R ! i = Active t q (Resolved a) \<and> values ! i = Some a)) \<or>
        (S ! i \<noteq> Collected \<and> S ! i = R ! i))"

section \<open>Properties of Result\<close>

lemmas match_simps = match_def getMatcherResult_def isRawValue_def

text \<open>
  C5. \<open>map2\<close> and \<open>map3\<close> return \<open>Ok\<close> of the combining function applied to the
  payloads when every element of the tuple is \<open>Ok\<close>, and otherwise the first \<open>Err\<close> in
  positional order, whatever stands after it; the combining function is then not called.
  In particular \<open>map2(f)([Err(x), Err(y)])\<close> is \<open>Err(x)\<close>.
\<close>

theorem map2_map3_first_error:
  "(Result_map2 f (Ok a, Ok b) = js_bind (f a b) (\<lambda>c. js_return (Ok c))) \<and>
   (Result_map2 f (Err x, r) = js_return (Err x)) \<and>
   (Result_map2 f (Ok a, Err y) = js_return (Err y)) \<and>
   (Result_map2 f (Err x, Err y) = js_return (Err x)) \<and>
   (Result_map3 g (Ok a, Ok b, Ok c) = js_bind (g a b c) (\<lambda>d. js_return (Ok d))) \<and>
   (Result_map3 g (Err x, r1, r2) = js_return (Err x)) \<and>
   (Result_map3 g (Ok a, Err y, r2) = js_return (Err y)) \<and>
   (Result_map3 g (Ok a, Ok b, Err z) = js_return (Err z))"
  by (simp add: Result_map2_def Result_map3_def isOk_def isErr_def)

text \<open>
  C6. \<open>map\<close> and \<open>bind\<close> leave an \<open>Err\<close> as it is, and \<open>mapErr\<close> leaves an \<open>Ok\<close> as
  it is, without calling their function: whatever the function would do (change the
  state, throw), the call returns normally and the state is the one before the call.
\<close>

theorem err_passes_through:
  "(Result_map f (Err e) s = (Inr (Err e), s)) \<and>
   (Result_bind g (Err e) s = (Inr (Err e), s)) \<and>
   (mapErr h (Ok a) s = (Inr (Ok a), s))"
  by (simp add: Result_map_def Result_bind_def mapErr_def match_simps js_return_def)



text \<open>
  C8. \<open>bind\<close> is associative on successes: evaluating
  \<open>Result.bind(g)(Result.bind(f)(Ok(a)))\<close> is evaluating
  \<open>Result.bind(a2 => Result.bind(g)(f(a2)))(Ok(a))\<close>.
\<close>

theorem bind_result_assoc:
  "js_bind (Result_bind f (Ok a)) (Result_bind g) =
   Result_bind (\<lambda>a2. js_bind (f a2) (Result_bind g)) (Ok a)"
  by (simp add: Result_bind_def match_simps)

text \<open>
  C10. A default that is itself a function is not returned by \<open>defaultValue\<close> on an
  \<open>Err(e)\<close>: it is called with \<open>e\<close>, and what it returns (or throws) is the outcome. A
  default that is not a function is returned as it is.
\<close>

theorem defaultValue_function_default:
  "(defaultValue (Func f) (Err e) = f e) \<and>
   (defaultValue (Plain p) (Err e) = js_return (Plain p))"
  by (simp add: defaultValue_def asCase_def match_simps)

section \<open>Properties of Async\<close>

lemma run_Promise_then:
  "run (Promise_then p f) t s =
     (case run p t s of
        (Fulfilled a, t', s') \<Rightarrow> (case f a s' of (q, s'') \<Rightarrow> run q t' s'')
      | (Failed x, t', s') \<Rightarrow> (Failed x, t', s')
      | (Unsettled, t', s') \<Rightarrow> (Unsettled, t', s'))"
  by (induction p arbitrary: t s) (simp_all split: prod.splits)

lemma run_Async_of: "run_from (Async_of a) t s = (Fulfilled a, t, s)"
  by (simp add: run_from_def start_def Async_of_def)

lemma run_Async_map:
  "run_from (Async_map f async) t s =
     (case run_from async t s of
        (Fulfilled a, t', s') \<Rightarrow>
          (case f a s' of
             (Inr b, s'') \<Rightarrow> (Fulfilled b, t', s'')
           | (Inl x, s'') \<Rightarrow> (Failed x, t', s''))
      | (Failed x, t', s') \<Rightarrow> (Failed x, t', s')
      | (Unsettled, t', s') \<Rightarrow> (Unsettled, t', s'))"
  by (simp add: run_from_def start_def Async_map_def settle_def run_Promise_then
      split: prod.splits outcome.splits sum.splits)

lemma run_Async_bind:
  "run_from (Async_bind g async) t s =
     (case run_from async t s of
        (Fulfilled a, t', s') \<Rightarrow>
          (case g a s' of
             (Inr inner, s'') \<Rightarrow> run_from inner t' s''
           | (Inl x, s'') \<Rightarrow> (Failed x, t', s''))
      | (Failed x, t', s') \<Rightarrow> (Failed x, t', s')
      | (Unsettled, t', s') \<Rightarrow> (Unsettled, t', s'))"
  by (simp add: run_from_def start_def Async_bind_def run_Promise_then
      split: prod.splits outcome.splits sum.splits)

lemma run_delay:
  "run_from (delay ms async) t s =
   run_from async (t + setTimeout_delay (if le_zero ms then Finite 0 else Math_floor ms)) s"
  unfolding run_from_def start_def delay_def Let_def setTimeout_promise_def await_def
  by (simp add: run_Promise_then split: prod.splits outcome.splits)

text \<open>
  C1. Building a producer does no work. The calls \<open>of(a)\<close>, \<open>map(f)(async)\<close>,
  \<open>bind(g)(async)\<close> and \<open>delay(ms)(async)\<close>, evaluated in any state, throw nothing, leave
  the state as it is and return the producer: neither \<open>async\<close> nor \<open>f\<close> or \<open>g\<close> is
  called. The work is done by \<open>start\<close>, from the state handed to it. Being started, \<open>of\<close>
  changes nothing, \<open>map\<close> and \<open>bind\<close> start the underlying producer and call their
  function when its promise is resolved, in the state of that moment, and \<open>delay\<close> starts
  the underlying producer when its timer has fired.
\<close>

theorem producers_are_lazy:
  "of_call a s0 = (Inr (Async_of a), s0) \<and>
   js_bind (map_call f) (\<lambda>build. build async) s0 = (Inr (Async_map f async), s0) \<and>
   js_bind (bind_call g) (\<lambda>build. build async) s0 = (Inr (Async_bind g async), s0) \<and>
   js_bind (delay_call ms) (\<lambda>build. build async) s0 = (Inr (delay ms async), s0) \<and>
   start (Async_of a) s = (Resolved a, s) \<and>
   snd (start (Async_map f async) s) = snd (start async s) \<and>
   snd (start (Async_bind g async) s) = snd (start async s) \<and>
   snd (start (delay ms async) s) = s \<and>
   run_from (Async_of a) t s = (Fulfilled a, t, s) \<and>
   run_from (Async_map f async) t s =
     (case run_from async t s of
        (Fulfilled a, t', s') \<Rightarrow>
          (case f a s' of
             (Inr b, s'') \<Rightarrow> (Fulfilled b, t', s'')
           | (Inl x, s'') \<Rightarrow> (Failed x, t', s''))
      | (Failed x, t', s') \<Rightarrow> (Failed x, t', s')
      | (Unsettled, t', s') \<Rightarrow> (Unsettled, t', s')) \<and>
   run_from (Async_bind g async) t s =
     (case run_from async t s of
        (Fulfilled a, t', s') \<Rightarrow>
          (case g a s' of
             (Inr inner, s'') \<Rightarrow> run_from inner t' s''
           | (Inl x, s'') \<Rightarrow> (Failed x, t', s''))
      | (Failed x, t', s') \<Rightarrow> (Failed x, t', s')
      | (Unsettled, t', s') \<Rightarrow> (Unsettled, t', s')) \<and>
   run_from (delay ms async) t s =
     run_from async (t + setTimeout_delay (if le_zero ms then Finite 0 else Math_floor ms)) s"
proof -
  have calls:
    "of_call a s0 = (Inr (Async_of a), s0)"
    "js_bind (map_call f) (\<lambda>build. build async) s0 = (Inr (Async_map f async), s0)"
    "js_bind (bind_call g) (\<lambda>build. build async) s0 = (Inr (Async_bind g async), s0)"
    "js_bind (delay_call ms) (\<lambda>build. build async) s0 = (Inr (delay ms async), s0)"
    by (simp_all add: of_call_def map_call_def bind_call_def delay_call_def js_bind_def js_return_def)
  have starts:
    "start (Async_of a) s = (Resolved a, s)"
    "snd (start (Async_map f async) s) = snd (start async s)"
    "snd (start (Async_bind g async) s) = snd (start async s)"
    "snd (start (delay ms async) s) = s"
    by (simp_all add: start_def Async_of_def Async_map_def Async_bind_def delay_def
        split: prod.splits)
  show ?thesis
    by (intro conjI calls starts run_Async_of run_Async_map run_Async_bind run_delay)
qed




lemma sequential_loop_step:
  assumes "i < length asyncs"
  shows "run_from (sequential_loop asyncs i acc) t s =
     (case run_from (asyncs ! i) t s of
        (Fulfilled a, t', s') \<Rightarrow> run_from (sequential_loop asyncs (Suc i) (acc @ [a])) t' s'
      | (Failed x, t', s') \<Rightarrow> (Failed x, t', s')
      | (Unsettled, t', s') \<Rightarrow> (Unsettled, t', s'))"
proof -
  obtain p s1 where p: "(asyncs ! i) s = (p, s1)"
    by (cases "(asyncs ! i) s")
  have "run_from (sequential_loop asyncs i acc) t s =
        run (await p (\<lambda>a. sequential_loop asyncs (Suc i) (acc @ [a]))) t s1"
    using assms p by (simp add: run_from_def start_def sequential_loop.simps [of asyncs i])
  then show ?thesis
    using p by (simp add: await_def run_Promise_then run_from_def start_def
        split: prod.splits outcome.splits)
qed

lemma sequential_loop_end:
  assumes "\<not> i < length asyncs"
  shows "run_from (sequential_loop asyncs i acc) t s = (Fulfilled acc, t, s)"
  using assms by (simp add: run_from_def start_def sequential_loop.simps [of asyncs i])

lemma sequential_loop_shift:
  "run_from (sequential_loop (a # as) (Suc i) acc) t s = run_from (sequential_loop as i acc) t s"
proof (induction "length as - i" arbitrary: i acc t s)
  case 0
  then show ?case
    by (simp add: sequential_loop_end)
next
  case (Suc n)
  then have i: "i < length as" and n: "n = length as - Suc i"
    by simp_all
  show ?case
    using i Suc.hyps(1) [OF n]
    by (simp add: sequential_loop_step [of "Suc i" "a # as"] sequential_loop_step [of i as]
        split: prod.splits outcome.splits)
qed

lemma sequential_loop_acc:
  "run_from (sequential_loop as i (r # acc)) t s = with_first r (run_from (sequential_loop as i acc) t s)"
proof (induction "length as - i" arbitrary: i acc t s)
  case 0
  then show ?case
    by (simp add: sequential_loop_end with_first_def)
next
  case (Suc n)
  then have i: "i < length as" and n: "n = length as - Suc i"
    by simp_all
  show ?case
    using i Suc.hyps(1) [OF n]
    by (simp add: sequential_loop_step [of i as] with_first_def
        split: prod.splits outcome.splits)
qed

lemma sequential_Nil: "run_from (sequential []) t s = (Fulfilled [], t, s)"
  by (simp add: sequential_def sequential_loop_end)

lemma sequential_Cons:
  "run_from (sequential (a # as)) t s =
     (case run_from a t s of
        (Fulfilled r, t1, s1) \<Rightarrow> with_first r (run_from (sequential as) t1 s1)
      | (Failed x, t1, s1) \<Rightarrow> (Failed x, t1, s1)
      | (Unsettled, t1, s1) \<Rightarrow> (Unsettled, t1, s1))"
  by (simp add: sequential_def sequential_loop_step [of 0 "a # as"] sequential_loop_shift
      sequential_loop_acc [of as 0 _ "[]"] split: prod.splits outcome.splits)

lemma sequential_append:
  "run_from (sequential (as @ bs)) t s =
     (case run_from (sequential as) t s of
        (Fulfilled rs, t1, s1) \<Rightarrow>
          (case run_from (sequential bs) t1 s1 of
             (Fulfilled rs', t2, s2) \<Rightarrow> (Fulfilled (rs @ rs'), t2, s2)
           | (Failed x, t2, s2) \<Rightarrow> (Failed x, t2, s2)
           | (Unsettled, t2, s2) \<Rightarrow> (Unsettled, t2, s2))
      | (Failed x, t1, s1) \<Rightarrow> (Failed x, t1, s1)
      | (Unsettled, t1, s1) \<Rightarrow> (Unsettled, t1, s1))"
proof (induction as arbitrary: t s)
  case Nil
  show ?case
    by (simp add: sequential_Nil split: prod.splits outcome.splits)
next
  case (Cons a as)
  show ?case
    by (simp add: sequential_Cons Cons.IH with_first_def split: prod.splits outcome.splits)
qed

text \<open>
  C2. \<open>sequential\<close> of a list, once started, starts the first producer at once and every
  other producer at the time and in the state at which the promise of the one before it
  was resolved, so the producers run one at a time in the order of the list; the result
  is the list of their values in that order.
\<close>

theorem sequential_in_order:
  "run_from (sequential []) t s = (Fulfilled [], t, s) \<and>
   run_from (sequential (a # as)) t s =
     (case run_from a t s of
        (Fulfilled r, t1, s1) \<Rightarrow>
          (case run_from (sequential as) t1 s1 of
             (Fulfilled rs, t2, s2) \<Rightarrow> (Fulfilled (r # rs), t2, s2)
           | (Failed x, t2, s2) \<Rightarrow> (Failed x, t2, s2)
           | (Unsettled, t2, s2) \<Rightarrow> (Unsettled, t2, s2))
      | (Failed x, t1, s1) \<Rightarrow> (Failed x, t1, s1)
      | (Unsettled, t1, s1) \<Rightarrow> (Unsettled, t1, s1))"
  by (simp add: sequential_Nil sequential_Cons with_first_def split: prod.splits outcome.splits)

text \<open>
  C9. When the producers before position \<open>i\<close> have all been resolved and the promise of
  the producer at \<open>i\<close> is rejected, the promise of \<open>sequential\<close> is rejected with the same
  failure, at the time and in the state of that rejection: whatever producers stand after
  \<open>i\<close>, none of them is started.
\<close>

theorem sequential_stops_at_rejection:
  assumes "run_from (sequential before) t s = (Fulfilled rs, t1, s1)"
    and "run_from a t1 s1 = (Failed x, t2, s2)"
  shows "run_from (sequential (before @ a # after)) t s = (Failed x, t2, s2)"
  using assms by (simp add: sequential_append sequential_Cons)

theorem sequential_stops_at_rejection_witness:
  "run_from (sequential ([\<lambda>s. (Resolved (1 :: nat), s @ [''a1''])]
      @ (\<lambda>s. (Rejected ''boom'', s @ [''a2''])) # [\<lambda>s. (Resolved 3, s @ [''a3''])])) 0 []
   = (Failed ''boom'', 0, [''a1'', ''a2''])"
proof -
  have before: "run_from (sequential [\<lambda>s. (Resolved (1 :: nat), s @ [''a1''])]) 0 []
      = (Fulfilled [1], 0, [''a1''])"
    unfolding sequential_Cons sequential_Nil
    by (simp add: run_from_def start_def with_first_def)
  have rejected: "run_from (\<lambda>s. (Rejected ''boom'', s @ [''a2''])) 0 [''a1'']
      = (Failed ''boom'', 0, [''a1'', ''a2''])"
    by (simp add: run_from_def start_def)
  show ?thesis
    using sequential_stops_at_rejection [OF before rejected] by simp
qed

lemma sequential_example:
  "run_from (sequential
      [tee (\<lambda>a s. (Inr (), s @ [''a1 done''])) (delay (Finite 50) (Async_of (1 :: nat))),
       tee (\<lambda>a s. (Inr (), s @ [''a2 done''])) (delay (Finite 10) (Async_of 2))
         :: (string list, string, nat) async]) 0 []
   = (Fulfilled [1, 2], 60, [''a1 done'', ''a2 done''])"
  unfolding sequential_Cons sequential_Nil
  by (simp add: run_from_def start_def tee_def delay_def Async_of_def await_def
      setTimeout_promise_def setTimeout_delay_def le_zero_def Math_floor_def with_first_def)

subsection \<open>Promise.all against the promises by themselves\<close>

lemma Promise_all_loop_done:
  "remaining = 0 \<Longrightarrow>
   Promise_all_loop order now seq values remaining slots = Resolved (map the values)"
  by (subst Promise_all_loop.simps) simp

lemma Promise_all_loop_collect:
  "remaining \<noteq> 0 \<Longrightarrow> first_settled slots = Some i \<Longrightarrow> slots ! i = Active t q (Resolved a) \<Longrightarrow>
   Promise_all_loop order now seq values remaining slots =
   Promise_all_loop order now seq (values[i := Some a]) (remaining - 1) (slots[i := Collected])"
  by (subst Promise_all_loop.simps) simp

lemma Promise_all_loop_reject:
  "remaining \<noteq> 0 \<Longrightarrow> first_settled slots = Some i \<Longrightarrow> slots ! i = Active t q (Rejected x) \<Longrightarrow>
   Promise_all_loop order now seq values remaining slots = Rejected x"
  by (subst Promise_all_loop.simps) simp

lemma Promise_all_loop_job:
  "remaining \<noteq> 0 \<Longrightarrow> first_settled slots = None \<Longrightarrow> next_turn order slots = Some i \<Longrightarrow>
   slots ! i = Active t q (Job u k) \<Longrightarrow>
   Promise_all_loop order now seq values remaining slots =
   Job u (\<lambda>s. Promise_all_loop order now (seq + 1) values remaining
                (slots[i := Active now seq (k s)]))"
  by (subst Promise_all_loop.simps) simp

lemma Promise_all_loop_timer:
  "remaining \<noteq> 0 \<Longrightarrow> first_settled slots = None \<Longrightarrow> next_turn order slots = Some i \<Longrightarrow>
   slots ! i = Active t q (Timer d u k) \<Longrightarrow>
   Promise_all_loop order now seq values remaining slots =
   Timer (max now (t + d) - now) u
     (\<lambda>s. Promise_all_loop order (max now (t + d)) (seq + 1) values remaining
            (slots[i := Active (max now (t + d)) seq (k s)]))"
  by (subst Promise_all_loop.simps) simp

lemma Promise_all_loop_idle:
  "remaining \<noteq> 0 \<Longrightarrow> first_settled slots = None \<Longrightarrow> next_turn order slots = None \<Longrightarrow>
   Promise_all_loop order now seq values remaining slots = Never"
  by (subst Promise_all_loop.simps) simp

lemma take_turns_stop:
  "next_turn order slots = None \<Longrightarrow> take_turns order now seq slots t s = (slots, t, s)"
  by (subst take_turns.simps) simp

lemma take_turns_job:
  "next_turn order slots = Some i \<Longrightarrow> slots ! i = Active t0 q (Job u k) \<Longrightarrow>
   take_turns order now seq slots t s =
   take_turns order now (seq + 1) (slots[i := Active now seq (k s)]) t (u s)"
  by (subst take_turns.simps) simp

lemma take_turns_timer:
  "next_turn order slots = Some i \<Longrightarrow> slots ! i = Active t0 q (Timer d u k) \<Longrightarrow>
   take_turns order now seq slots t s =
   take_turns order (max now (t0 + d)) (seq + 1) (slots[i := Active (max now (t0 + d)) seq (k s)])
     (t + (max now (t0 + d) - now)) (u s)"
  by (subst take_turns.simps) simp

lemma settled_cases:
  "settled sl \<Longrightarrow> (\<exists>t q a. sl = Active t q (Resolved a)) \<or> (\<exists>t q x. sl = Active t q (Rejected x))"
  by (erule settled.elims) simp_all

lemma first_settled_None:
  "first_settled slots = None \<Longrightarrow> i < length slots \<Longrightarrow> \<not> settled (slots ! i)"
  by (simp add: first_settled_def find_None_iff)

text \<open>
  The order of the host lets no step wait for ever: it names no slot only when no slot
  has a step to take.
\<close>

lemma host_order_None:
  assumes "next_turn host_order slots = None" and "i < length slots"
  shows "job_seq (slots ! i) = None \<and> timer_due (slots ! i) = None"
proof (cases "host_order (map pending_step slots)")
  case None
  then have "least (\<le>) (keyed fst (map pending_step slots)) = None"
    and "least earlier (keyed snd (map pending_step slots)) = None"
    by (auto simp: host_order_def split: option.splits)
  then have "keyed fst (map pending_step slots) = []" and "keyed snd (map pending_step slots) = []"
    by (simp_all add: least_None)
  then have "fst (map pending_step slots ! i) = None" and "snd (map pending_step slots ! i) = None"
    using assms(2) keyed_Nil [of _ "map pending_step slots" i] by simp_all
  then show ?thesis
    using assms(2) by (simp add: pending_step_def)
next
  case (Some j)
  have "\<exists>m. (j, m) \<in> set (keyed fst (map pending_step slots)) \<or>
      (\<exists>n. (j, n) \<in> set (keyed snd (map pending_step slots)))"
  proof (cases "least (\<le>) (keyed fst (map pending_step slots))")
    case None
    then obtain n where "least earlier (keyed snd (map pending_step slots)) = Some (j, n)"
      using Some by (auto simp: host_order_def)
    then show ?thesis
      using least_mem by fastforce
  next
    case (Some jq)
    then obtain q where "least (\<le>) (keyed fst (map pending_step slots)) = Some (j, q)"
      using \<open>host_order (map pending_step slots) = Some j\<close>
      by (cases jq) (simp add: host_order_def)
    then show ?thesis
      using least_mem by fastforce
  qed
  then have "j < length slots \<and> pending_step (slots ! j) \<noteq> (None, None)"
    by (auto dest!: keyed_mem simp: pending_step_def)
  then have "next_turn host_order slots = Some j"
    using Some by (simp add: next_turn_def)
  then show ?thesis
    using assms(1) by simp
qed

lemma next_turn_cong:
  fixes S R :: "('s, 'x, 'a) slot list"
  assumes "length S = length R"
    and "\<And>i. i < length S \<Longrightarrow> pending_step (S ! i) = pending_step (R ! i)"
  shows "next_turn order S = next_turn order R"
proof -
  have "map pending_step S = map pending_step R"
    using assms by (simp add: list_eq_iff_nth_eq)
  then show ?thesis
    using assms by (auto simp: next_turn_def split: option.splits)
qed

lemma filter_length_update:
  "i < length xs \<Longrightarrow>
   length (filter P (xs[i := y])) + (if P (xs ! i) then 1 else 0) =
   length (filter P xs) + (if P y then 1 else 0)"
proof (induction xs arbitrary: i)
  case Nil
  then show ?case by simp
next
  case (Cons x xs)
  show ?case
  proof (cases i)
    case 0
    then show ?thesis by simp
  next
    case (Suc j)
    then have "j < length xs" using Cons.prems by simp
    from Cons.IH [OF this] show ?thesis
      using Suc by simp
  qed
qed

lemma keeps_update:
  assumes "length F = length (R[i := new]) \<and>
      (\<forall>j<length (R[i := new]).
         job_seq (R[i := new] ! j) = None \<and> timer_due (R[i := new] ! j) = None \<longrightarrow>
         F ! j = R[i := new] ! j)"
    and "job_seq (R ! i) \<noteq> None \<or> timer_due (R ! i) \<noteq> None"
  shows "length F = length R \<and>
      (\<forall>j<length R. job_seq (R ! j) = None \<and> timer_due (R ! j) = None \<longrightarrow> F ! j = R ! j)"
proof (intro conjI allI impI)
  show "length F = length R"
    using assms(1) by simp
next
  fix j
  assume j: "j < length R" and none: "job_seq (R ! j) = None \<and> timer_due (R ! j) = None"
  then have "j \<noteq> i"
    using assms(2) by auto
  then have "R[i := new] ! j = R ! j"
    by simp
  then show "F ! j = R ! j"
    using assms(1) j none by simp
qed

text \<open>A slot that has no step to take is at the end what it is.\<close>

lemma take_turns_keeps:
  "take_turns order now seq R t s = (F, t', s') \<Longrightarrow>
   length F = length R \<and>
   (\<forall>i<length R. job_seq (R ! i) = None \<and> timer_due (R ! i) = None \<longrightarrow> F ! i = R ! i)"
proof (induction order now seq R t s rule: take_turns.induct)
  case (1 order now seq slots t s)
  show ?case
  proof (cases "next_turn order slots")
    case None
    then show ?thesis
      using "1.prems" by (simp add: take_turns_stop)
  next
    case (Some i)
    from next_turn_Some [OF Some] have i: "i < length slots"
      and turn: "job_seq (slots ! i) \<noteq> None \<or> timer_due (slots ! i) \<noteq> None"
      by blast+
    from turn_cases [OF turn]
    consider t0 q u k where "slots ! i = Active t0 q (Job u k)"
      | t0 q d u k where "slots ! i = Active t0 q (Timer d u k)"
      by blast
    then show ?thesis
    proof cases
      case 1
      have "take_turns order now (seq + 1) (slots[i := Active now seq (k s)]) t (u s) = (F, t', s')"
        using "1.prems" by (simp add: take_turns_job [OF Some 1])
      from "1.IH"(1) [OF Some 1 refl this] show ?thesis
        using turn by (rule keeps_update)
    next
      case 2
      have "take_turns order (max now (t0 + d)) (seq + 1)
          (slots[i := Active (max now (t0 + d)) seq (k s)])
          (t + (max now (t0 + d) - now)) (u s) = (F, t', s')"
        using "1.prems" by (simp add: take_turns_timer [OF Some 2])
      from "1.IH"(2) [OF Some 2 refl this] show ?thesis
        using turn by (rule keeps_update)
    qed
  qed
qed

lemma mirrors_same:
  "mirrors values remaining S R \<Longrightarrow> i < length S \<Longrightarrow> S ! i \<noteq> Collected \<Longrightarrow> R ! i = S ! i"
  by (auto simp: mirrors_def)

lemma mirrors_next_turn:
  assumes "mirrors values remaining S R"
  shows "next_turn order S = next_turn order R"
proof (rule next_turn_cong)
  show "length S = length R"
    using assms by (simp add: mirrors_def)
next
  fix i
  assume "i < length S"
  then have "(S ! i = Collected \<and> (\<exists>t q a. R ! i = Active t q (Resolved a))) \<or> S ! i = R ! i"
    using assms by (auto simp: mirrors_def)
  then show "pending_step (S ! i) = pending_step (R ! i)"
    by (auto simp: pending_step_def)
qed

lemma mirrors_collect:
  assumes "mirrors values remaining S R" and "i < length S"
    and "S ! i = Active t q (Resolved a)"
  shows "mirrors (values[i := Some a]) (remaining - 1) (S[i := Collected]) R"
proof -
  have count: "length (filter (\<lambda>sl. sl \<noteq> Collected) (S[i := Collected])) + 1 =
      length (filter (\<lambda>sl. sl \<noteq> Collected) S)"
    using filter_length_update [OF assms(2), of "\<lambda>sl. sl \<noteq> Collected" Collected] assms(3)
    by simp
  have "R ! i = Active t q (Resolved a)"
    using mirrors_same [OF assms(1,2)] assms(3) by simp
  then show ?thesis
    using assms count by (auto simp: mirrors_def nth_list_update)
qed

lemma mirrors_step:
  assumes "mirrors values remaining S R" and "i < length S"
    and "S ! i \<noteq> Collected"
  shows "mirrors values remaining (S[i := Active t q p]) (R[i := Active t q p])"
proof -
  have "length (filter (\<lambda>sl. sl \<noteq> Collected) (S[i := Active t q p])) =
      length (filter (\<lambda>sl. sl \<noteq> Collected) S)"
    using filter_length_update [OF assms(2), of "\<lambda>sl. sl \<noteq> Collected" "Active t q p"] assms(3)
    by simp
  then show ?thesis
    using assms by (auto simp: mirrors_def nth_list_update)
qed

lemma mirrors_done_stop:
  assumes "mirrors values 0 S R"
  shows "next_turn order R = None"
proof -
  have "\<forall>sl \<in> set S. sl = Collected"
    using assms(1) by (auto simp: mirrors_def filter_empty_conv)
  then have all: "\<forall>i<length S. S ! i = Collected"
    by simp
  have "next_turn order S = None"
    by (auto simp: next_turn_def pending_step_def all split: option.splits)
  then show ?thesis
    using mirrors_next_turn [OF assms(1)] by simp
qed

lemma mirrors_done_values:
  assumes "mirrors values 0 S R" and "map outcome_of R = map Fulfilled vs"
  shows "vs = map the values"
proof (rule nth_equalityI)
  have "length vs = length R"
    using assms(2) by (metis length_map)
  then show "length vs = length (map the values)"
    using assms(1) by (simp add: mirrors_def)
next
  fix i
  assume "i < length vs"
  then have i: "i < length S"
    using assms by (metis length_map mirrors_def)
  have "\<forall>sl \<in> set S. sl = Collected"
    using assms(1) by (auto simp: mirrors_def filter_empty_conv)
  then have "S ! i = Collected"
    using i by simp
  then obtain t q a where R: "R ! i = Active t q (Resolved a)" and v: "values ! i = Some a"
    using assms(1) i by (auto simp: mirrors_def)
  have "outcome_of (R ! i) = Fulfilled (vs ! i)"
    using assms i by (metis length_map mirrors_def nth_map)
  then show "vs ! i = map the values ! i"
    using i assms(1) R v by (simp add: mirrors_def)
qed

text \<open>
  The loop of \<open>Promise.all\<close> against the promises by themselves, in the same order of
  steps: when these all end fulfilled, the loop takes the same steps and ends resolved
  with their values by index.
\<close>

lemma Promise_all_loop_run:
  "mirrors values remaining S R \<Longrightarrow>
   take_turns order now seq R t s = (F, t', s') \<Longrightarrow>
   map outcome_of F = map Fulfilled vs \<Longrightarrow>
   run (Promise_all_loop order now seq values remaining S) t s = (Fulfilled vs, t', s')"
proof (induction order now seq "values" remaining S arbitrary: R t s rule: Promise_all_loop.induct)
  case (1 order now seq "values" remaining slots)
  note mir = "1.prems"(1) and turns = "1.prems"(2) and all = "1.prems"(3)
  have lenF: "length F = length R"
    using take_turns_keeps [OF turns] by simp
  have lenS: "length slots = length R"
    using mir by (simp add: mirrors_def)
  have failed: False if "i < length R" and "job_seq (R ! i) = None" and "timer_due (R ! i) = None"
    and "\<forall>a. outcome_of (R ! i) \<noteq> Fulfilled a" for i
  proof -
    have "F ! i = R ! i"
      using take_turns_keeps [OF turns] that by simp
    moreover have "outcome_of (F ! i) = Fulfilled (vs ! i)"
      using all that(1) lenF by (metis length_map nth_map)
    ultimately show False
      using that(4) by simp
  qed
  show ?case
  proof (cases "remaining = 0")
    case True
    then have zero: "mirrors values 0 slots R"
      using mir by simp
    then have "next_turn order R = None"
      by (rule mirrors_done_stop)
    then have "F = R" and "t' = t" and "s' = s"
      using turns by (simp_all add: take_turns_stop)
    then have "vs = map the values"
      using mirrors_done_values [OF zero] all by simp
    then show ?thesis
      using True \<open>t' = t\<close> \<open>s' = s\<close> by (simp add: Promise_all_loop_done)
  next
    case rem: False
    show ?thesis
    proof (cases "first_settled slots")
      case (Some i)
      then have i: "i < length slots" and "settled (slots ! i)"
        by (simp_all add: first_settled_Some)
      then consider t0 q a where "slots ! i = Active t0 q (Resolved a)"
        | t0 q x where "slots ! i = Active t0 q (Rejected x)"
        using settled_cases by blast
      then show ?thesis
      proof cases
        case 1
        from "1.IH"(3) [OF rem Some 1 refl mirrors_collect [OF mir i 1] turns all]
        show ?thesis
          by (simp add: Promise_all_loop_collect [OF rem Some 1])
      next
        case 2
        then have "R ! i = Active t0 q (Rejected x)"
          using mirrors_same [OF mir i] by simp
        then have False
          using failed [of i] i lenS by simp
        then show ?thesis ..
      qed
    next
      case None
      show ?thesis
      proof (cases "next_turn order slots")
        case no: None
        have "filter (\<lambda>sl. sl \<noteq> Collected) slots \<noteq> []"
          using mir rem by (auto simp: mirrors_def)
        then obtain sl where "sl \<in> set slots" and "sl \<noteq> Collected"
          by (auto simp: filter_empty_conv)
        then obtain i where i: "i < length slots" and sl: "slots ! i \<noteq> Collected"
          by (metis in_set_conv_nth)
        then obtain t0 q p where p: "slots ! i = Active t0 q p"
          by (cases "slots ! i") simp_all
        have unsettled: "\<not> settled (slots ! i)"
          using first_settled_None [OF None i] .
        have same: "R ! i = Active t0 q p"
          using mirrors_same [OF mir i sl] p by simp
        have "next_turn order R = None"
          using mirrors_next_turn [OF mir] no by simp
        then have "F = R"
          using turns by (simp add: take_turns_stop)
        then have "outcome_of (R ! i) = Fulfilled (vs ! i)"
          using all i lenS by (metis length_map nth_map)
        then have False
          using same unsettled p by (cases p) simp_all
        then show ?thesis ..
      next
        case (Some i)
        from next_turn_Some [OF Some] have i: "i < length slots"
          and turn: "job_seq (slots ! i) \<noteq> None \<or> timer_due (slots ! i) \<noteq> None"
          by blast+
        have nR: "next_turn order R = Some i"
          using mirrors_next_turn [OF mir] Some by simp
        from turn_cases [OF turn]
        consider t0 q u k where "slots ! i = Active t0 q (Job u k)"
          | t0 q d u k where "slots ! i = Active t0 q (Timer d u k)"
          by blast
        then show ?thesis
        proof cases
          case 1
          then have R: "R ! i = Active t0 q (Job u k)"
            using mirrors_same [OF mir i] by simp
          have m: "mirrors values remaining (slots[i := Active now seq (k s)])
              (R[i := Active now seq (k s)])"
            using mir i 1 by (intro mirrors_step) simp_all
          have tt: "take_turns order now (seq + 1) (R[i := Active now seq (k s)]) t (u s)
              = (F, t', s')"
            using turns by (simp add: take_turns_job [OF nR R])
          from "1.IH"(1) [OF rem None Some 1 refl m tt all]
          show ?thesis
            by (simp add: Promise_all_loop_job [OF rem None Some 1])
        next
          case 2
          then have R: "R ! i = Active t0 q (Timer d u k)"
            using mirrors_same [OF mir i] by simp
          have m: "mirrors values remaining (slots[i := Active (max now (t0 + d)) seq (k s)])
              (R[i := Active (max now (t0 + d)) seq (k s)])"
            using mir i 2 by (intro mirrors_step) simp_all
          have tt: "take_turns order (max now (t0 + d)) (seq + 1)
              (R[i := Active (max now (t0 + d)) seq (k s)])
              (t + (max now (t0 + d) - now)) (u s) = (F, t', s')"
            using turns by (simp add: take_turns_timer [OF nR R])
          from "1.IH"(2) [OF rem None Some 2 refl m tt all]
          show ?thesis
            by (simp add: Promise_all_loop_timer [OF rem None Some 2])
        qed
      qed
    qed
  qed
qed

lemma length_Array_map: "length (fst (Array_map f xs s)) = length xs"
proof (induction xs arbitrary: s)
  case Nil
  show ?case by simp
next
  case (Cons x xs)
  obtain y s1 where y: "f x s = (y, s1)"
    by (cases "f x s")
  obtain ys s2 where ys: "Array_map f xs s1 = (ys, s2)"
    by (cases "Array_map f xs s1")
  have "length ys = length xs"
    using Cons.IH [of s1] ys by simp
  then show ?case
    using y ys by simp
qed

lemma Promise_all_run:
  assumes "concurrently order promises t s = (map Fulfilled vs, t', s')"
  shows "run (Promise_all order promises) t s = (Fulfilled vs, t', s')"
proof -
  obtain F where turns:
      "take_turns order 0 (length promises) (initial_slots promises) t s = (F, t', s')"
    and all: "map outcome_of F = map Fulfilled vs"
    using assms by (auto simp: concurrently_def split: prod.splits)
  have "mirrors (replicate (length promises) None) (length promises)
      (initial_slots promises) (initial_slots promises)"
    by (auto simp: mirrors_def initial_slots_def filter_map comp_def)
  from Promise_all_loop_run [OF this turns all] show ?thesis
    by (simp add: Promise_all_def)
qed

text \<open>
  C3. \<open>parallel\<close> of a list, once started, starts every producer, in the order of the
  list, before any of the promises takes a step. Whatever the order in which the promises
  then take their steps and are fulfilled: when, running together in that order, they are
  all fulfilled, the promise of \<open>parallel\<close> is fulfilled at the time and in the state at
  which the last of them is, and its value is the list that has at every index the value
  of the promise of the producer at that index; it is as long as the list of producers.
\<close>

theorem parallel_positional:
  assumes "Array_map start asyncs s = (promises, s1)"
    and "concurrently order promises t s1 = (map Fulfilled vs, t', s')"
  shows "run_from (parallel order asyncs) t s = (Fulfilled vs, t', s') \<and>
         length vs = length asyncs"
proof -
  have "run_from (parallel order asyncs) t s = (Fulfilled vs, t', s')"
    using assms(1) Promise_all_run [OF assms(2)]
    by (simp add: run_from_def start_def parallel_def)
  moreover have "length promises = length asyncs"
    using length_Array_map [of start asyncs s] assms(1) by simp
  moreover have "length vs = length promises"
  proof -
    obtain F where
      "take_turns order 0 (length promises) (initial_slots promises) t s1 = (F, t', s')"
      and "map outcome_of F = map Fulfilled vs"
      using assms(2) by (auto simp: concurrently_def split: prod.splits)
    then show ?thesis
      using take_turns_keeps [of order 0 "length promises" "initial_slots promises" t s1 F t' s']
      by (metis initial_slots_def length_map length_upt minus_nat.diff_0)
  qed
  ultimately show ?thesis
    by simp
qed

lemmas event_loop_simps =
  take_turns_stop take_turns_job take_turns_timer
  Promise_all_loop_done Promise_all_loop_collect Promise_all_loop_reject
  Promise_all_loop_job Promise_all_loop_timer Promise_all_loop_idle
  next_turn_def host_order_def pending_step_def keyed_def map_filter_def first_settled_def
  earlier_def initial_slots_def

lemmas producer_simps =
  start_def tee_def delay_def Async_of_def Async_map_def settle_def await_def
  setTimeout_promise_def setTimeout_delay_def le_zero_def Math_floor_def
  js_return_def js_throw_def

theorem parallel_positional_witness:
  "run_from (parallel host_order
      [tee (\<lambda>a s. (Inr (), s @ [''a1 done''])) (delay (Finite 50) (Async_of (1 :: nat))),
       tee (\<lambda>a s. (Inr (), s @ [''a2 done''])) (delay (Finite 10) (Async_of 2))
         :: (string list, string, nat) async]) 0 []
   = (Fulfilled [1, 2], 50, [''a2 done'', ''a1 done''])"
proof -
  let ?asyncs = "[tee (\<lambda>a s. (Inr (), s @ [''a1 done''])) (delay (Finite 50) (Async_of (1 :: nat))),
       tee (\<lambda>a s. (Inr (), s @ [''a2 done''])) (delay (Finite 10) (Async_of 2))
         :: (string list, string, nat) async]"
  let ?promises = "fst (Array_map start ?asyncs [])"
  have started: "Array_map start ?asyncs [] = (?promises, [])"
    by (simp add: producer_simps)
  have together: "concurrently host_order ?promises 0 [] =
      (map Fulfilled [1, 2], 50, [''a2 done'', ''a1 done''])"
    by (simp add: concurrently_def producer_simps event_loop_simps)
  from parallel_positional [OF started together] show ?thesis
    by simp
qed

text \<open>
  Two examples of the order of the jobs in the host's order. The callback of the second
  producer is queued before that of the first, whose promise has one more \<open>then\<close> to
  pass: with a counter the values are \<open>[1, 0]\<close>, and of two rejections the second
  producer's comes first.
\<close>

lemma parallel_first_in_first_out:
  "run_from (parallel host_order
      [Async_map (\<lambda>x s. (Inr s, s + 1)) (Async_map js_return (Async_of ())),
       Async_map (\<lambda>x s. (Inr s, s + 1)) (Async_of ())
         :: (nat, string, nat) async]) 0 0
   = (Fulfilled [1, 0], 0, 2)"
  by (simp add: run_from_def parallel_def Promise_all_def producer_simps event_loop_simps)

lemma parallel_first_rejection:
  "run_from (parallel host_order
      [Async_map (\<lambda>x. js_throw ''a'') (Async_map js_return (Async_of ())),
       Async_map (\<lambda>x. js_throw ''b'') (Async_of ())
         :: (unit, string, nat) async]) 0 ()
   = (Failed ''b'', 0, ())"
  by (simp add: run_from_def parallel_def Promise_all_def producer_simps event_loop_simps)

text \<open>
  Two producers whose promises are fulfilled in the order of the list under the host's
  order and in the opposite order under another, as the log shows: the list of values is
  the same.
\<close>

lemma parallel_in_any_order:
  "run_from (parallel host_order
      [tee (\<lambda>a s. (Inr (), s @ [''a1 done''])) (Async_of (1 :: nat)),
       tee (\<lambda>a s. (Inr (), s @ [''a2 done''])) (Async_of 2)
         :: (string list, string, nat) async]) 0 []
   = (Fulfilled [1, 2], 0, [''a1 done'', ''a2 done'']) \<and>
   run_from (parallel rightmost_order
      [tee (\<lambda>a s. (Inr (), s @ [''a1 done''])) (Async_of (1 :: nat)),
       tee (\<lambda>a s. (Inr (), s @ [''a2 done''])) (Async_of 2)
         :: (string list, string, nat) async]) 0 []
   = (Fulfilled [1, 2], 0, [''a2 done'', ''a1 done''])"
  by (simp add: run_from_def parallel_def Promise_all_def producer_simps event_loop_simps
      rightmost_order_def)

end
